theory Spec2Isabelle
  imports Main "HOL-Library.Sublist"
begin

section \<open>Python strings\<close>

text \<open>
  A Python \<open>str\<close> is a sequence of code points and \<open>len\<close> counts them. The model is
  \<open>string\<close>, a list of \<open>char\<close>, each \<open>char\<close> standing for the code point of the same
  number, so the texts of the model are the texts over the code points 0 to 255. On
  that range \<open>str.lower\<close> maps character by character and keeps the length, and
  \<open>str.isspace\<close> holds for the twelve code points listed in \<open>is_space\<close>.
\<close>

definition is_space :: "char \<Rightarrow> bool" where
  "is_space c = (let n = (of_char c :: nat) in
     (9 \<le> n \<and> n \<le> 13) \<or> (28 \<le> n \<and> n \<le> 32) \<or> n = 133 \<or> n = 160)"

definition lower_char :: "char \<Rightarrow> char" where
  "lower_char c = (let n = (of_char c :: nat) in
     if (65 \<le> n \<and> n \<le> 90) \<or> (192 \<le> n \<and> n \<le> 222 \<and> n \<noteq> 215)
     then char_of (n + 32) else c)"

text \<open>\<open>s.lower()\<close>\<close>

definition lower :: "string \<Rightarrow> string" where
  "lower s = map lower_char s"

text \<open>\<open>s.strip()\<close>: leading and trailing whitespace removed.\<close>

definition strip :: "string \<Rightarrow> string" where
  "strip s = rev (dropWhile is_space (rev (dropWhile is_space s)))"

text \<open>
  \<open>s.split()\<close>: the maximal runs of characters that are not whitespace, in order; no
  empty word. \<open>cur\<close> holds the current word, reversed.
\<close>

fun split_loop :: "string \<Rightarrow> string \<Rightarrow> string list" where
  "split_loop cur [] = (if cur = [] then [] else [rev cur])"
| "split_loop cur (c # cs) =
     (if is_space c
      then (if cur = [] then split_loop [] cs else rev cur # split_loop [] cs)
      else split_loop (c # cur) cs)"

definition split :: "string \<Rightarrow> string list" where
  "split s = split_loop [] s"

text \<open>\<open>word in text\<close>: \<open>word\<close> occurs in \<open>text\<close> as a contiguous substring.\<close>

fun str_in :: "string \<Rightarrow> string \<Rightarrow> bool" where
  "str_in word [] = (word = [])"
| "str_in word (c # cs) = (prefix word (c # cs) \<or> str_in word cs)"

text \<open>
  \<open>xs[start:end]\<close> for integer bounds: a negative bound counts from the end, and both
  bounds are clamped to the list.
\<close>

definition py_slice :: "'a list \<Rightarrow> int \<Rightarrow> int \<Rightarrow> 'a list" where
  "py_slice xs start end =
     (let n = int (length xs);
          s = (if start < 0 then max 0 (start + n) else min start n);
          e = (if end < 0 then max 0 (end + n) else min end n)
      in take (nat (e - s)) (drop (nat s) xs))"

text \<open>\<open>sep.join(parts)\<close>\<close>

fun join :: "string \<Rightarrow> string list \<Rightarrow> string" where
  "join sep [] = []"
| "join sep [p] = p"
| "join sep (p # q # ps) = p @ sep @ join sep (q # ps)"


section \<open>Configuration\<close>

definition CHUNK_SIZE :: int where
  "CHUNK_SIZE = 900"

definition MAX_CONTEXT_CHUNKS :: nat where
  "MAX_CONTEXT_CHUNKS = 4"

definition OLLAMA_URL :: string where
  "OLLAMA_URL = ''http://localhost:11434/api/chat''"

definition OLLAMA_MODEL :: string where
  "OLLAMA_MODEL = ''llama3:latest''"


section \<open>Chunking and indexing\<close>

type_synonym document = "string \<times> string"
type_synonym entry = "string \<times> string"

text \<open>
  The \<open>while\<close> loop of \<open>split_into_chunks\<close>. It runs for ever on a non-empty text when
  \<open>chunk_size\<close> is not positive, so the loop is a partial function and \<open>None\<close> stands
  for a call that does not return.
\<close>

partial_function (option) split_into_chunks_loop ::
  "string \<Rightarrow> int \<Rightarrow> string list \<Rightarrow> int \<Rightarrow> string list option" where
  "split_into_chunks_loop text chunk_size chunks start =
     (if start < int (length text)
      then split_into_chunks_loop text chunk_size
             (chunks @ [strip (py_slice text start (start + chunk_size))])
             (start + chunk_size)
      else Some chunks)"

declare split_into_chunks_loop.simps [code]

definition split_into_chunks :: "string \<Rightarrow> int \<Rightarrow> string list option" where
  "split_into_chunks text chunk_size = split_into_chunks_loop text chunk_size [] 0"

text \<open>The inner loop of \<open>build_index\<close>: \<open>if chunk: index.append((name, chunk))\<close>.\<close>

fun append_chunks :: "string \<Rightarrow> string list \<Rightarrow> entry list \<Rightarrow> entry list" where
  "append_chunks name [] index = index"
| "append_chunks name (chunk # chunks) index =
     append_chunks name chunks (if chunk \<noteq> [] then index @ [(name, chunk)] else index)"

fun build_index_loop :: "document list \<Rightarrow> entry list \<Rightarrow> entry list option" where
  "build_index_loop [] index = Some index"
| "build_index_loop ((name, text) # documents) index =
     (case split_into_chunks text CHUNK_SIZE of
        None \<Rightarrow> None
      | Some chunks \<Rightarrow> build_index_loop documents (append_chunks name chunks index))"

definition build_index :: "document list \<Rightarrow> entry list option" where
  "build_index documents = build_index_loop documents []"


section \<open>Search\<close>

type_synonym scored = "nat \<times> string \<times> string"

text \<open>The inner loop of \<open>search_index\<close>: one point for each query word found.\<close>

fun score_loop :: "string list \<Rightarrow> string \<Rightarrow> nat \<Rightarrow> nat" where
  "score_loop [] chunk_lower score = score"
| "score_loop (word # query_words) chunk_lower score =
     score_loop query_words chunk_lower
       (if str_in word chunk_lower then score + 1 else score)"

text \<open>The outer loop: the chunks of positive score, with their score, in index order.\<close>

fun score_chunks :: "string list \<Rightarrow> entry list \<Rightarrow> scored list \<Rightarrow> scored list" where
  "score_chunks query_words [] scored_chunks = scored_chunks"
| "score_chunks query_words ((doc_name, chunk) # index) scored_chunks =
     (let chunk_lower = lower chunk;
          score = score_loop query_words chunk_lower 0
      in score_chunks query_words index
           (if score > 0 then scored_chunks @ [(score, doc_name, chunk)] else scored_chunks))"

text \<open>
  \<open>scored_chunks.sort(key=lambda x: x[0], reverse=True)\<close>. Python's sort is stable,
  and with \<open>reverse=True\<close> it sorts as if each comparison were reversed, so elements of
  equal key keep their order: a stable sort on the negated key.
\<close>

definition sort_reverse :: "scored list \<Rightarrow> scored list" where
  "sort_reverse scored_chunks = sort_key (\<lambda>x. - int (fst x)) scored_chunks"

definition query_words_of :: "string \<Rightarrow> string list" where
  "query_words_of query = filter (\<lambda>w. length w > 2) (split query)"

definition search_index :: "string \<Rightarrow> entry list \<Rightarrow> entry list" where
  "search_index query index =
     (let query = lower (strip query) in
      if query = [] then []
      else let query_words = query_words_of query in
        if query_words = [] then []
        else let scored_chunks = sort_reverse (score_chunks query_words index []);
                 top_chunks = take MAX_CONTEXT_CHUNKS scored_chunks
             in map (\<lambda>(score, doc_name, chunk). (doc_name, chunk)) top_chunks)"


text \<open>
  The score that \<open>search_index\<close> computes for the chunk of an index entry: the inner
  loop run on the significant words of the normalised query and the lower-cased chunk.
\<close>

definition score_of :: "string \<Rightarrow> entry \<Rightarrow> nat" where
  "score_of query e = score_loop (query_words_of (lower (strip query))) (lower (snd e)) 0"


section \<open>The generation backend\<close>

abbreviation NL :: string where
  "NL \<equiv> [CHR 0x0A]"

text \<open>
  What \<open>requests.post\<close>, \<open>raise_for_status\<close>, \<open>response.json()\<close> and the two lookups
  can raise.
\<close>

datatype error =
    ConnectionError
  | Timeout
  | HTTPError nat
  | JSONDecodeError
  | KeyError
  | TypeError

text \<open>
  The JSON body of the request: \<open>messages\<close> lists (role, content) pairs.
\<close>

record payload =
  model :: string
  messages :: "(string \<times> string) list"
  stream :: bool

text \<open>
  A response of the HTTP library: its status code, and \<open>message_content\<close>, the
  value of \<open>response.json()["message"]["content"]\<close> or the exception that decoding
  the body or one of the two lookups raises. The value is a string: a body whose
  content is of another JSON type is not a response of the model.
\<close>

record response =
  status_code :: nat
  message_content :: "error + string"

text \<open>
  \<open>requests.post(url, json=payload, timeout=t)\<close>: the network answers a request with
  an exception or a response.
\<close>

type_synonym network = "string \<Rightarrow> payload \<Rightarrow> nat \<Rightarrow> error + response"

text \<open>
  The effects of answering: \<open>requests\<close> logs every call of \<open>requests.post\<close> in order,
  \<open>warnings\<close> every call of \<open>st.warning\<close>, with the exception it reports.
\<close>

record session =
  requests :: "(string \<times> payload \<times> nat) list"
  warnings :: "error list"

definition system_prompt :: string where
  \<open>system_prompt =
     ''You are a helpful assistant for Africa International University (AIU) PDF documents. '' @
     ''You MUST answer strictly and only using the information in the provided CONTEXT. '' @
     ''If the answer is not explicitly in the context, you MUST reply: '' @
     ''"I am not sure; the PDFs I have do not say that clearly." '' @
     ''Do NOT invent facts. Do not use outside knowledge. '' @
     ''Be clear, concise, and friendly.''\<close>

definition user_prompt :: "string \<Rightarrow> string \<Rightarrow> string" where
  "user_prompt question context =
     ''QUESTION:'' @ NL @ question @ NL @ NL @
     ''CONTEXT (from AIU PDFs):'' @ NL @ context @ NL @ NL @
     ''Now give a clear, student-friendly answer using only this context. '' @
     ''If the context does not contain the answer, say you are not sure.''"

text \<open>\<open>response.raise_for_status()\<close> raises for the status codes 400 to 599.\<close>

definition call_ollama_llm ::
  "network \<Rightarrow> string \<Rightarrow> string \<Rightarrow> session \<Rightarrow> (error + string) \<times> session" where
  "call_ollama_llm requests_post question context s =
     (let payload = \<lparr>model = OLLAMA_MODEL,
                      messages = [(''system'', system_prompt),
                                  (''user'', user_prompt question context)],
                      stream = False\<rparr>;
          s = s\<lparr>requests := requests s @ [(OLLAMA_URL, payload, 120)]\<rparr>
      in case requests_post OLLAMA_URL payload 120 of
           Inl e \<Rightarrow> (Inl e, s)
         | Inr response \<Rightarrow>
             if 400 \<le> status_code response \<and> status_code response < 600
             then (Inl (HTTPError (status_code response)), s)
             else (message_content response, s))"


section \<open>Answer generation\<close>

text \<open>
  \<open>textwrap.fill(text, width)\<close> belongs to Python's standard library; the functions
  below take it as the parameter \<open>textwrap_fill\<close>.
\<close>

fun strict_blocks ::
  "(string \<Rightarrow> nat \<Rightarrow> string) \<Rightarrow> entry list \<Rightarrow> string list \<Rightarrow> string list" where
  "strict_blocks textwrap_fill [] blocks = blocks"
| "strict_blocks textwrap_fill ((doc_name, chunk) # matches) blocks =
     (let wrapped = textwrap_fill chunk 90;
          block = ''From **'' @ doc_name @ ''**:'' @ NL @ NL @ wrapped
      in strict_blocks textwrap_fill matches (blocks @ [block]))"

definition build_strict_answer_from_chunks ::
  "(string \<Rightarrow> nat \<Rightarrow> string) \<Rightarrow> entry list \<Rightarrow> string" where
  "build_strict_answer_from_chunks textwrap_fill matches =
     (if matches = []
      then ''I could not find an exact answer to your question in the available PDFs. '' @
           ''Please try rephrasing your question or checking the documents directly.''
      else join (NL @ NL @ ''---'' @ NL @ NL) (strict_blocks textwrap_fill matches []))"

fun context_loop :: "entry list \<Rightarrow> string list \<Rightarrow> string list" where
  "context_loop [] context_pieces = context_pieces"
| "context_loop ((doc_name, chunk) # matches) context_pieces =
     context_loop matches (context_pieces @ [''Document: '' @ doc_name @ NL @ chunk])"

text \<open>
  \<open>generate_answer\<close> returns the answer and the session after it. The parameter
  \<open>use_llm\<close> is not read. The \<open>except\<close> branch catches every exception of the call,
  reports it with \<open>st.warning\<close> and returns the excerpt answer.
\<close>

definition generate_answer ::
  "(string \<Rightarrow> nat \<Rightarrow> string) \<Rightarrow> network \<Rightarrow> string \<Rightarrow> entry list \<Rightarrow> bool \<Rightarrow> session
     \<Rightarrow> string \<times> session" where
  "generate_answer textwrap_fill requests_post query index use_llm s =
     (let matches = search_index query index in
      if matches = []
      then (''I could not find a matching answer to your question in the PDFs. '' @
            ''Try using different words that might appear in the documents.'', s)
      else
        let context_pieces = context_loop matches [];
            context_text = join (NL @ NL @ ''-----'' @ NL @ NL) context_pieces
        in case call_ollama_llm requests_post query context_text s of
             (Inr llm_answer, s) \<Rightarrow> (llm_answer, s)
           | (Inl e, s) \<Rightarrow>
               (build_strict_answer_from_chunks textwrap_fill matches,
                s\<lparr>warnings := warnings s @ [e]\<rparr>))"


section \<open>Properties of the chunker and the indexer\<close>

lemma py_slice_window:
  assumes "0 \<le> s" "0 < S"
  shows "py_slice xs s (s + S) = take (nat S) (drop (nat s) xs)"
proof (cases "s < int (length xs)")
  case True
  show ?thesis
  proof (cases "s + S \<le> int (length xs)")
    case True
    with assms \<open>s < int (length xs)\<close> show ?thesis
      by (simp add: py_slice_def Let_def min_def)
  next
    case False
    with assms True have "nat S \<ge> length (drop (nat s) xs)" by simp
    with assms True False show ?thesis
      by (simp add: py_slice_def Let_def min_def)
  qed
next
  case False
  with assms show ?thesis
    by (simp add: py_slice_def Let_def min_def)
qed

lemma windows_cover:
  fixes L n :: nat
  assumes "0 < n"
  shows "L \<le> ((L + n - 1) div n) * n"
proof -
  have "L + n - 1 < n + ((L + n - 1) div n) * n"
    using assms dividend_less_times_div[of n "L + n - 1"] by (simp add: mult.commute)
  then show ?thesis using assms by linarith
qed

lemma window_starts_inside:
  fixes L n k :: nat
  assumes "0 < n" "k < (L + n - 1) div n"
  shows "k * n < L"
proof -
  have "Suc k * n \<le> ((L + n - 1) div n) * n"
    using assms(2) by (intro mult_le_mono1) simp
  also have "\<dots> \<le> L + n - 1" by simp
  finally show ?thesis using assms(1) by simp
qed

lemma loop_windows:
  assumes S: "0 < S"
  shows "k \<le> (length text + nat S - 1) div nat S \<Longrightarrow>
     split_into_chunks_loop text S chunks (int k * S) =
       Some (chunks @ map (\<lambda>i. strip (take (nat S) (drop (i * nat S) text)))
                        [k..<(length text + nat S - 1) div nat S])"
proof (induction "(length text + nat S - 1) div nat S - k" arbitrary: k chunks)
  case 0
  then have k: "k = (length text + nat S - 1) div nat S" by simp
  have "length text \<le> k * nat S"
    unfolding k using S by (intro windows_cover) simp
  then have "int (length text) \<le> int (k * nat S)" by (simp only: of_nat_le_iff)
  then have "\<not> int k * S < int (length text)" using S by simp
  then show ?case using k
    by (subst split_into_chunks_loop.simps) simp
next
  case (Suc d)
  from Suc.hyps(2) have lt: "k < (length text + nat S - 1) div nat S" by linarith
  have "k * nat S < length text"
    using S lt by (intro window_starts_inside) simp_all
  then have "int (k * nat S) < int (length text)" by (simp only: of_nat_less_iff)
  then have c: "int k * S < int (length text)" using S by simp
  have e: "int k * S + S = int (Suc k) * S" by (simp add: algebra_simps)
  have "split_into_chunks_loop text S chunks (int k * S) =
        split_into_chunks_loop text S
          (chunks @ [strip (py_slice text (int k * S) (int k * S + S))]) (int (Suc k) * S)"
    using c by (subst split_into_chunks_loop.simps) (simp add: e)
  also have "\<dots> = Some ((chunks @ [strip (py_slice text (int k * S) (int k * S + S))]) @
        map (\<lambda>i. strip (take (nat S) (drop (i * nat S) text)))
            [Suc k..<(length text + nat S - 1) div nat S])"
    using Suc.hyps(2) lt by (intro Suc.hyps(1)) linarith+
  also have "py_slice text (int k * S) (int k * S + S) = take (nat S) (drop (k * nat S) text)"
    using S by (subst py_slice_window) (auto simp: nat_mult_distrib)
  finally show ?case using lt by (simp add: upt_conv_Cons)
qed

lemma split_into_chunks_windows:
  assumes "0 < S"
  shows "split_into_chunks text S =
     Some (map (\<lambda>i. strip (take (nat S) (drop (i * nat S) text)))
               [0..<(length text + nat S - 1) div nat S])"
  using loop_windows[OF assms, of 0 "text" "[]"] by (simp add: split_into_chunks_def)

text \<open>
  With a chunk size that is not positive the loop never leaves a non-empty text:
  \<open>start\<close> does not grow.
\<close>

lemma loop_returns_positive_or_done:
  assumes "split_into_chunks_loop t S chunks start = Some y"
  shows "0 < S \<or> int (length t) \<le> start"
proof (rule split_into_chunks_loop.raw_induct
    [where P = "\<lambda>t S chunks start y. 0 < S \<or> int (length t) \<le> start", OF _ assms])
  fix f t S chunks start and y :: "string list"
  assume IH: "\<And>t S chunks start y. f t S chunks start = Some y \<Longrightarrow>
                 0 < S \<or> int (length t) \<le> start"
    and step: "(if start < int (length t)
                then f t S (chunks @ [strip (py_slice t start (start + S))]) (start + S)
                else Some chunks) = Some y"
  show "0 < S \<or> int (length t) \<le> start"
  proof (cases "start < int (length t)")
    case True
    with step have "f t S (chunks @ [strip (py_slice t start (start + S))]) (start + S) = Some y"
      by simp
    then have "0 < S \<or> int (length t) \<le> start + S" by (rule IH)
    with True show ?thesis by linarith
  next
    case False
    then show ?thesis by simp
  qed
qed

lemma split_into_chunks_diverges:
  assumes "S \<le> 0" "t \<noteq> []"
  shows "split_into_chunks t S = None"
proof (rule ccontr)
  assume "split_into_chunks t S \<noteq> None"
  then obtain y where "split_into_chunks_loop t S [] 0 = Some y"
    by (auto simp: split_into_chunks_def)
  then have "0 < S \<or> int (length t) \<le> 0" by (rule loop_returns_positive_or_done)
  with assms show False by simp
qed

lemma length_strip_le: "length (strip s) \<le> length s"
proof -
  have "length (strip s) \<le> length (dropWhile is_space s)"
    unfolding strip_def using length_dropWhile_le[of is_space "rev (dropWhile is_space s)"] by simp
  also have "\<dots> \<le> length s" by (rule length_dropWhile_le)
  finally show ?thesis .
qed

lemma append_chunks_filter:
  "append_chunks name chunks index = index @ map (Pair name) (filter (\<lambda>c. c \<noteq> []) chunks)"
  by (induction chunks arbitrary: index) simp_all

lemma build_index_loop_concat:
  "\<exists>ess. list_all2 (\<lambda>(name, text) es. \<exists>chunks. split_into_chunks text CHUNK_SIZE = Some chunks
               \<and> es = map (Pair name) (filter (\<lambda>c. c \<noteq> []) chunks)) documents ess
         \<and> build_index_loop documents index = Some (index @ concat ess)"
proof (induction documents arbitrary: index)
  case Nil
  then show ?case by simp
next
  case (Cons d documents)
  obtain name doc_text where d: "d = (name, doc_text)" by (cases d)
  have "0 < CHUNK_SIZE" by (simp add: CHUNK_SIZE_def)
  then obtain chunks where c: "split_into_chunks doc_text CHUNK_SIZE = Some chunks"
    using split_into_chunks_windows by blast
  let ?es = "map (Pair name) (filter (\<lambda>c. c \<noteq> []) chunks)"
  from Cons.IH[of "index @ ?es"] obtain ess where
    ess: "list_all2 (\<lambda>(name, text) es. \<exists>chunks. split_into_chunks text CHUNK_SIZE = Some chunks
               \<and> es = map (Pair name) (filter (\<lambda>c. c \<noteq> []) chunks)) documents ess"
    and b: "build_index_loop documents (index @ ?es) = Some ((index @ ?es) @ concat ess)"
    by blast
  have "list_all2 (\<lambda>(name, text) es. \<exists>chunks. split_into_chunks text CHUNK_SIZE = Some chunks
               \<and> es = map (Pair name) (filter (\<lambda>c. c \<noteq> []) chunks)) (d # documents) (?es # ess)"
    using ess c d by simp
  moreover have "build_index_loop (d # documents) index = Some (index @ concat (?es # ess))"
    using b c d by (simp add: append_chunks_filter)
  ultimately show ?case by blast
qed

text \<open>
  A text of two spaces is shorter than the chunk size and trims to the empty string,
  and \<open>split_into_chunks\<close> returns one chunk for it, the empty string.
\<close>

theorem short_text_counterexample:
  "int (length ''  '') < 900 \<and> strip ''  '' = [] \<and> split_into_chunks ''  '' 900 = Some [[]]"
  by (simp add: split_into_chunks_def split_into_chunks_loop.simps strip_def py_slice_def
      is_space_def)

text \<open>
  C5, as the code has it: for every text \<open>T\<close> and positive chunk size \<open>S\<close>,
  \<open>split_into_chunks\<close> returns, and returns one chunk for each of the
  \<open>\<lceil>|T| / S\<rceil>\<close> windows of \<open>T\<close>; the \<open>i\<close>-th chunk is exactly the character range
  \<open>[i\<cdot>S, (i+1)\<cdot>S)\<close> of \<open>T\<close> trimmed of leading and trailing whitespace, so its length
  is at most \<open>S\<close>. In particular a non-empty text of length at most \<open>S\<close> yields
  exactly one chunk, the trimmed text (the empty string when the text trims to
  empty), and the empty text yields no chunk.
\<close>

theorem split_into_chunks_ranges:
  assumes "0 < S"
  shows "\<exists>chunks. split_into_chunks T S = Some chunks
     \<and> length chunks = (length T + nat S - 1) div nat S
     \<and> (\<forall>i < length chunks. chunks ! i = strip (take (nat S) (drop (i * nat S) T))
                             \<and> int (length (chunks ! i)) \<le> S)
     \<and> (T \<noteq> [] \<and> int (length T) \<le> S \<longrightarrow> chunks = [strip T])
     \<and> (T = [] \<longrightarrow> chunks = [])"
proof -
  let ?N = "(length T + nat S - 1) div nat S"
  let ?cs = "map (\<lambda>i. strip (take (nat S) (drop (i * nat S) T))) [0..<?N]"
  have a: "split_into_chunks T S = Some ?cs" by (rule split_into_chunks_windows[OF assms])
  have b: "length ?cs = ?N" by simp
  have c: "?cs ! i = strip (take (nat S) (drop (i * nat S) T)) \<and> int (length (?cs ! i)) \<le> S"
    if "i < length ?cs" for i
  proof -
    have "length (strip (take (nat S) (drop (i * nat S) T))) \<le> length (take (nat S) (drop (i * nat S) T))"
      by (rule length_strip_le)
    also have "\<dots> \<le> nat S" by simp
    finally show ?thesis using that assms by simp
  qed
  have d: "?cs = [strip T]" if "T \<noteq> []" "int (length T) \<le> S"
  proof -
    have "length T \<le> nat S" using that by simp
    moreover have "0 < length T" using that by simp
    moreover have "nat S * Suc 1 = nat S + nat S" by simp
    ultimately have "nat S * 1 \<le> length T + nat S - 1"
      and "length T + nat S - 1 < nat S * Suc 1" by linarith+
    then have "?N = 1" by (rule div_nat_eqI)
    then show ?thesis using \<open>length T \<le> nat S\<close> by simp
  qed
  have e: "?cs = []" if "T = []" using that assms by simp
  show ?thesis
  proof (intro exI[of _ ?cs] conjI allI impI)
    show "split_into_chunks T S = Some ?cs" by (rule a)
    show "length ?cs = ?N" by (rule b)
    show "?cs ! i = strip (take (nat S) (drop (i * nat S) T))" if "i < length ?cs" for i
      using c[OF that] by (rule conjunct1)
    show "int (length (?cs ! i)) \<le> S" if "i < length ?cs" for i
      using c[OF that] by (rule conjunct2)
    show "?cs = [strip T]" if "T \<noteq> [] \<and> int (length T) \<le> S"
      using that d by blast
    show "?cs = []" if "T = []" using that by (rule e)
  qed
qed

theorem split_into_chunks_ranges_witness:
  "(0::int) < 900 \<and> '' hi '' \<noteq> [] \<and> int (length '' hi '') \<le> 900
   \<and> split_into_chunks '' hi '' 900 = Some [''hi'']"
proof -
  have h: "(0::int) < 900" by simp
  have n: "'' hi '' \<noteq> [] \<and> int (length '' hi '') \<le> 900" by simp
  from split_into_chunks_ranges[OF h, of "'' hi ''"] obtain chunks where
    c: "split_into_chunks '' hi '' 900 = Some chunks" and
    d: "'' hi '' \<noteq> [] \<and> int (length '' hi '') \<le> 900 \<longrightarrow> chunks = [strip '' hi '']"
    by blast
  from d n have "chunks = [strip '' hi '']" by (rule mp)
  moreover have "strip '' hi '' = ''hi''" by code_simp
  ultimately have "split_into_chunks '' hi '' 900 = Some [''hi'']" using c by simp
  with h n show ?thesis by blast
qed

text \<open>
  The middle window of this text is blank, and the output of \<open>split_into_chunks\<close>
  holds the empty string at its place.
\<close>

theorem chunker_keeps_empty_counterexample:
  "split_into_chunks ''a    b'' 2 = Some [''a'', [], ''b''] \<and> strip ([''a'', [], ''b''] ! 1) = []"
  by (simp add: split_into_chunks_def split_into_chunks_loop.simps strip_def py_slice_def
      is_space_def)

text \<open>
  C3, as the code has it: for every text and positive chunk size,
  \<open>split_into_chunks\<close> returns the trimmed windows of the partition one for one, a
  window that trims to the empty string included as the empty string, with the
  boundaries at the multiples of the chunk size whatever the trimming does. The empty
  strings are omitted by \<open>build_index\<close>: its entries for a document are the non-empty
  trimmed windows of 900 characters, in order.
\<close>

theorem empty_chunks_dropped_by_index:
  assumes "0 < S"
  shows "split_into_chunks T S =
           Some (map (\<lambda>i. strip (take (nat S) (drop (i * nat S) T)))
                     [0..<(length T + nat S - 1) div nat S])
       \<and> build_index [(name, T)] =
           Some (map (Pair name) (filter (\<lambda>c. c \<noteq> [])
                  (map (\<lambda>i. strip (take 900 (drop (i * 900) T))) [0..<(length T + 899) div 900])))"
proof -
  have "0 < CHUNK_SIZE" by (simp add: CHUNK_SIZE_def)
  from split_into_chunks_windows[OF this, of T]
  have "build_index [(name, T)] =
           Some (map (Pair name) (filter (\<lambda>c. c \<noteq> [])
                  (map (\<lambda>i. strip (take 900 (drop (i * 900) T))) [0..<(length T + 899) div 900])))"
    by (simp add: build_index_def append_chunks_filter CHUNK_SIZE_def add.commute)
  with split_into_chunks_windows[OF assms, of T] show ?thesis by blast
qed

theorem empty_chunks_dropped_by_index_witness:
  "(0::int) < 2
   \<and> (split_into_chunks ''a    b'' 2 =
           Some (map (\<lambda>i. strip (take (nat 2) (drop (i * nat 2) ''a    b'')))
                     [0..<(length ''a    b'' + nat 2 - 1) div nat 2])
       \<and> build_index [(''d.pdf'', ''a    b'')] =
           Some (map (Pair ''d.pdf'') (filter (\<lambda>c. c \<noteq> [])
                  (map (\<lambda>i. strip (take 900 (drop (i * 900) ''a    b'')))
                       [0..<(length ''a    b'' + 899) div 900]))))"
proof -
  have h: "(0::int) < 2" by simp
  show ?thesis by (rule conjI[OF h empty_chunks_dropped_by_index[OF h]])
qed

text \<open>
  C9: for every sequence of documents \<open>build_index\<close> returns an index; no entry of it
  has the empty string as chunk text; and the index is the concatenation, in document
  order, of one block per document, the block of a document being the non-empty
  chunks that \<open>split_into_chunks\<close> produces for its text, each once, in their order,
  paired with the document's name.
\<close>

theorem build_index_complete:
  "\<exists>index ess. build_index documents = Some index
     \<and> (\<forall>(name, chunk) \<in> set index. chunk \<noteq> [])
     \<and> list_all2 (\<lambda>(name, text) es. \<exists>chunks. split_into_chunks text CHUNK_SIZE = Some chunks
               \<and> es = map (Pair name) (filter (\<lambda>c. c \<noteq> []) chunks)) documents ess
     \<and> index = concat ess"
proof -
  obtain ess where
    ess: "list_all2 (\<lambda>(name, text) es. \<exists>chunks. split_into_chunks text CHUNK_SIZE = Some chunks
               \<and> es = map (Pair name) (filter (\<lambda>c. c \<noteq> []) chunks)) documents ess"
    and b: "build_index documents = Some (concat ess)"
    using build_index_loop_concat[of documents "[]"] by (auto simp: build_index_def)
  have "chunk \<noteq> []" if "(name, chunk) \<in> set (concat ess)" for name chunk
  proof -
    from that obtain es where es: "es \<in> set ess" "(name, chunk) \<in> set es" by auto
    then obtain i where i: "i < length ess" "ess ! i = es" by (auto simp: in_set_conv_nth)
    with ess have "(\<lambda>(name, text) es. \<exists>chunks. split_into_chunks text CHUNK_SIZE = Some chunks
               \<and> es = map (Pair name) (filter (\<lambda>c. c \<noteq> []) chunks)) (documents ! i) es"
      by (auto simp: list_all2_conv_all_nth)
    with es(2) show ?thesis by (auto split: prod.splits)
  qed
  with ess b show ?thesis by blast
qed

theorem build_index_complete_witness:
  "build_index [(''a.pdf'', ''Hello''), (''b.pdf'', ''  '')] = Some [(''a.pdf'', ''Hello'')]
   \<and> (\<exists>index ess. build_index [(''a.pdf'', ''Hello''), (''b.pdf'', ''  '')] = Some index
     \<and> (\<forall>(name, chunk) \<in> set index. chunk \<noteq> [])
     \<and> list_all2 (\<lambda>(name, text) es. \<exists>chunks. split_into_chunks text CHUNK_SIZE = Some chunks
               \<and> es = map (Pair name) (filter (\<lambda>c. c \<noteq> []) chunks))
          [(''a.pdf'', ''Hello''), (''b.pdf'', ''  '')] ess
     \<and> index = concat ess)"
proof (rule conjI)
  show "build_index [(''a.pdf'', ''Hello''), (''b.pdf'', ''  '')] = Some [(''a.pdf'', ''Hello'')]"
    by (simp add: build_index_def split_into_chunks_def split_into_chunks_loop.simps
        CHUNK_SIZE_def strip_def py_slice_def is_space_def)
qed (rule build_index_complete)

section \<open>Properties of the search\<close>

subsection \<open>Scoring\<close>

lemma str_in_iff: "str_in word s \<longleftrightarrow> (\<exists>ps ss. s = ps @ word @ ss)"
proof (induction s)
  case Nil
  then show ?case by auto
next
  case (Cons c cs)
  show ?case
  proof
    assume "str_in word (c # cs)"
    then consider "prefix word (c # cs)" | "str_in word cs" by auto
    then show "\<exists>ps ss. c # cs = ps @ word @ ss"
    proof cases
      case 1
      then obtain ss where "c # cs = word @ ss" by (auto simp: prefix_def)
      then have "c # cs = [] @ word @ ss" by simp
      then show ?thesis by blast
    next
      case 2
      with Cons.IH obtain ps ss where "cs = ps @ word @ ss" by blast
      then have "c # cs = (c # ps) @ word @ ss" by simp
      then show ?thesis by blast
    qed
  next
    assume "\<exists>ps ss. c # cs = ps @ word @ ss"
    then obtain ps ss where e: "c # cs = ps @ word @ ss" by blast
    show "str_in word (c # cs)"
    proof (cases ps)
      case Nil
      with e have "prefix word (c # cs)" by (simp add: prefix_def)
      then show ?thesis by simp
    next
      case (Cons p ps')
      with e have "cs = ps' @ word @ ss" by simp
      with Cons.IH have "str_in word cs" by blast
      then show ?thesis by simp
    qed
  qed
qed

lemma score_loop_count:
  "score_loop query_words chunk_lower score =
     score + length (filter (\<lambda>w. str_in w chunk_lower) query_words)"
  by (induction query_words arbitrary: score) simp_all

lemma score_chunks_filter:
  "score_chunks query_words index scored_chunks =
     scored_chunks @ filter (\<lambda>x. 0 < fst x)
       (map (\<lambda>(doc_name, chunk). (score_loop query_words (lower chunk) 0, doc_name, chunk)) index)"
  by (induction index arbitrary: scored_chunks) (auto simp: Let_def)

text \<open>
  The query \<open>foo foo\<close> has one distinct significant word, and the chunk \<open>foo\<close> gets
  the score 2 for it. The repetition shows in the ranking: a chunk matching a word
  written three times in the query is ranked before a chunk matching two different
  words.
\<close>

theorem repeated_word_counterexample:
  "query_words_of (lower (strip ''foo foo'')) = [''foo'', ''foo'']
   \<and> length (remdups (query_words_of (lower (strip ''foo foo'')))) = 1
   \<and> str_in ''foo'' (lower ''foo'')
   \<and> score_chunks (query_words_of (lower (strip ''foo foo''))) [(''d.pdf'', ''foo'')] []
       = [(2, ''d.pdf'', ''foo'')]
   \<and> search_index ''ghi ghi ghi abc def'' [(''a.pdf'', ''abc def''), (''b.pdf'', ''ghi'')]
       = [(''b.pdf'', ''ghi''), (''a.pdf'', ''abc def'')]"
  by code_simp

text \<open>
  C1, as the code has it: for every query and every index, the score \<open>search_index\<close>
  assigns to a chunk equals the number of entries of the query's list of significant
  words (lower-cased words of length > 2, a word repeated in the query counted once
  for each repetition) that occur as a substring of the lower-cased chunk text; a word
  that occurs many times in the chunk contributes as much as one that occurs once.
  The scored list holds the chunks of positive score, in index order.
\<close>

theorem score_counts_query_words:
  "score_chunks (query_words_of (lower (strip query))) index [] =
     filter (\<lambda>(score, doc_name, chunk). 0 < score)
       (map (\<lambda>(doc_name, chunk).
               (length (filter (\<lambda>w. \<exists>ps ss. lower chunk = ps @ w @ ss)
                         (query_words_of (lower (strip query)))), doc_name, chunk)) index)"
  by (simp add: score_chunks_filter score_loop_count str_in_iff case_prod_unfold)

subsection \<open>Ranking\<close>

lemma search_index_empty:
  "lower (strip query) = [] \<or> query_words_of (lower (strip query)) = [] \<Longrightarrow>
     search_index query index = []"
  by (auto simp: search_index_def Let_def)

lemma search_index_sorted:
  "lower (strip query) \<noteq> [] \<Longrightarrow> query_words_of (lower (strip query)) \<noteq> [] \<Longrightarrow>
     search_index query index =
       map (\<lambda>x. snd x)
         (take MAX_CONTEXT_CHUNKS
            (sort_reverse (score_chunks (query_words_of (lower (strip query))) index [])))"
  by (simp add: search_index_def Let_def case_prod_unfold)

lemma score_chunks_score_of:
  "score_chunks (query_words_of (lower (strip query))) index [] =
     map (\<lambda>e. (score_of query e, e)) (filter (\<lambda>e. 0 < score_of query e) index)"
  by (induction index) (auto simp: score_chunks_filter score_of_def)

lemma set_sort_reverse: "set (sort_reverse xs) = set xs"
  by (simp add: sort_reverse_def)

lemma sort_reverse_stable:
  "filter (\<lambda>x. fst x = k) (sort_reverse xs) = filter (\<lambda>x. fst x = k) xs"
proof -
  have "filter (\<lambda>x. - int (fst x) = - int k) (sort_key (\<lambda>x. - int (fst x)) xs)
        = filter (\<lambda>x. - int (fst x) = - int k) xs"
    by (rule sort_key_stable)
  then show ?thesis by (simp add: sort_reverse_def)
qed

lemma sort_reverse_descending: "sorted_wrt (\<lambda>x y. fst y \<le> fst x) (sort_reverse xs)"
proof -
  have "sorted (map (\<lambda>x. - int (fst x)) (sort_key (\<lambda>x. - int (fst x)) xs))"
    by (rule sorted_sort_key)
  then show ?thesis by (simp add: sort_reverse_def sorted_map)
qed

lemma prefix_filter_take: "prefix (filter P (take n xs)) (filter P xs)"
proof -
  have "filter P xs = filter P (take n xs) @ filter P (drop n xs)"
    by (metis append_take_drop_id filter_append)
  then show ?thesis by (simp add: prefix_def)
qed

lemma top_chunks_scores:
  assumes "x \<in> set (take n (sort_reverse (map (\<lambda>e. (score_of query e, e)) es)))"
  shows "fst x = score_of query (snd x)"
proof -
  from assms have "x \<in> set (sort_reverse (map (\<lambda>e. (score_of query e, e)) es))"
    by (rule in_set_takeD)
  then show ?thesis by (auto simp: set_sort_reverse)
qed

lemma filter_map_snd:
  "(\<And>x. x \<in> set xs \<Longrightarrow> fst x = f (snd x)) \<Longrightarrow>
     filter (\<lambda>e. f e = k) (map snd xs) = map snd (filter (\<lambda>x. fst x = k) xs)"
  by (induction xs) auto

lemma filter_score_level:
  "map snd (filter (\<lambda>x. fst x = k) (map (\<lambda>e. (f e, e)) (filter (\<lambda>e. 0 < f e) es)))
     = (if 0 < k then filter (\<lambda>e. f e = k) es else [])"
  by (induction es) auto

lemma search_index_level:
  "prefix (filter (\<lambda>e. score_of query e = k) (search_index query index))
          (filter (\<lambda>e. score_of query e = k) index)"
proof (cases "lower (strip query) = [] \<or> query_words_of (lower (strip query)) = []")
  case True
  then show ?thesis by (simp add: search_index_empty)
next
  case False
  let ?scored = "map (\<lambda>e. (score_of query e, e)) (filter (\<lambda>e. 0 < score_of query e) index)"
  let ?top = "take MAX_CONTEXT_CHUNKS (sort_reverse ?scored)"
  have r: "search_index query index = map snd ?top"
    using False by (simp add: search_index_sorted score_chunks_score_of)
  have a: "filter (\<lambda>e. score_of query e = k) (map snd ?top)
           = map snd (filter (\<lambda>x. fst x = k) ?top)"
    by (rule filter_map_snd) (rule top_chunks_scores)
  have "prefix (filter (\<lambda>x. fst x = k) ?top) (filter (\<lambda>x. fst x = k) (sort_reverse ?scored))"
    by (rule prefix_filter_take)
  then have "prefix (map snd (filter (\<lambda>x. fst x = k) ?top))
                    (map snd (filter (\<lambda>x. fst x = k) ?scored))"
    unfolding sort_reverse_stable by (rule map_mono_prefix)
  then have b: "prefix (filter (\<lambda>e. score_of query e = k) (search_index query index))
                  (if 0 < k then filter (\<lambda>e. score_of query e = k) index else [])"
    by (simp only: r a filter_score_level)
  show ?thesis
  proof (cases "0 < k")
    case True
    with b show ?thesis by simp
  next
    case False
    with b show ?thesis by simp
  qed
qed

lemma search_index_descending:
  "sorted_wrt (\<lambda>a b. score_of query b \<le> score_of query a) (search_index query index)"
proof (cases "lower (strip query) = [] \<or> query_words_of (lower (strip query)) = []")
  case True
  then show ?thesis by (simp add: search_index_empty)
next
  case False
  let ?scored = "map (\<lambda>e. (score_of query e, e)) (filter (\<lambda>e. 0 < score_of query e) index)"
  let ?top = "take MAX_CONTEXT_CHUNKS (sort_reverse ?scored)"
  have r: "search_index query index = map snd ?top"
    using False by (simp add: search_index_sorted score_chunks_score_of)
  have "sorted_wrt (\<lambda>x y. fst y \<le> fst x) ?top"
    using sort_reverse_descending by (rule sorted_wrt_take)
  then have "sorted_wrt (\<lambda>x y. score_of query (snd y) \<le> score_of query (snd x)) ?top"
    by (rule sorted_wrt_mono_rel[rotated]) (simp add: top_chunks_scores)
  then show ?thesis unfolding r by (simp add: sorted_wrt_map)
qed

lemma search_index_subset:
  "set (search_index query index) \<subseteq> {e \<in> set index. 0 < score_of query e}"
proof (cases "lower (strip query) = [] \<or> query_words_of (lower (strip query)) = []")
  case True
  then show ?thesis by (simp add: search_index_empty)
next
  case False
  let ?scored = "map (\<lambda>e. (score_of query e, e)) (filter (\<lambda>e. 0 < score_of query e) index)"
  let ?top = "take MAX_CONTEXT_CHUNKS (sort_reverse ?scored)"
  have r: "search_index query index = map snd ?top"
    using False by (simp add: search_index_sorted score_chunks_score_of)
  have "set ?top \<subseteq> set ?scored"
    using set_take_subset[of MAX_CONTEXT_CHUNKS "sort_reverse ?scored"]
    by (simp only: set_sort_reverse)
  then show ?thesis unfolding r by auto
qed

lemma subseq_pair_positions:
  "subseq [x, y] xs \<Longrightarrow> \<exists>a b. a < b \<and> b < length xs \<and> xs ! a = x \<and> xs ! b = y"
proof (induction xs)
  case Nil
  then show ?case by simp
next
  case (Cons z zs)
  show ?case
  proof (cases "x = z")
    case True
    with Cons.prems have "y \<in> set zs" by (simp add: subseq_singleton_left)
    then obtain b where "b < length zs" "zs ! b = y" by (auto simp: in_set_conv_nth)
    with True have "0 < Suc b \<and> Suc b < length (z # zs) \<and> (z # zs) ! 0 = x \<and> (z # zs) ! Suc b = y"
      by simp
    then show ?thesis by blast
  next
    case False
    with Cons.prems have "subseq [x, y] zs" by simp
    with Cons.IH obtain a b where "a < b" "b < length zs" "zs ! a = x" "zs ! b = y" by blast
    then have "Suc a < Suc b \<and> Suc b < length (z # zs) \<and> (z # zs) ! Suc a = x \<and> (z # zs) ! Suc b = y"
      by simp
    then show ?thesis by blast
  qed
qed

lemma subseq_pair_nth:
  assumes "i < j" "j < length xs"
  shows "subseq [xs ! i, xs ! j] xs"
proof -
  have "xs = take i xs @ xs ! i # drop (Suc i) xs"
    using assms by (simp add: id_take_nth_drop)
  moreover have "xs ! j \<in> set (drop (Suc i) xs)"
  proof -
    have "drop (Suc i) xs ! (j - Suc i) = xs ! j" using assms by simp
    moreover have "j - Suc i < length (drop (Suc i) xs)" using assms by simp
    ultimately show ?thesis by (metis nth_mem)
  qed
  then have "subseq [xs ! i, xs ! j] (xs ! i # drop (Suc i) xs)"
    by (simp add: subseq_singleton_left)
  then have "subseq ([] @ [xs ! i, xs ! j]) (take i xs @ xs ! i # drop (Suc i) xs)"
    by (intro list_emb_append_mono) simp_all
  ultimately show ?thesis by simp
qed

lemma subseq_set_subset: "subseq xs ys \<Longrightarrow> set xs \<subseteq> set ys"
  by (induction rule: list_emb.induct) auto

lemma subseq_pair_prefix:
  assumes "distinct (rs @ rest)" "y \<in> set rs" "subseq [x, y] (rs @ rest)"
  shows "subseq [x, y] rs"
proof -
  from assms(3) obtain xs1 xs2 where s: "[x, y] = xs1 @ xs2" "subseq xs1 rs" "subseq xs2 rest"
    by (rule subseq_appendE)
  have "y \<notin> set rest" using assms(1,2) by auto
  moreover have "set xs2 \<subseteq> set rest" using s(3) by (rule subseq_set_subset)
  ultimately have n: "y \<notin> set xs2" by blast
  have "xs2 = []"
  proof (rule ccontr)
    assume ne: "xs2 \<noteq> []"
    then have "last xs2 = last (xs1 @ xs2)" by simp
    also have "\<dots> = y" unfolding s(1)[symmetric] by simp
    finally have "y \<in> set xs2" using ne last_in_set[of xs2] by simp
    with n show False by contradiction
  qed
  with s show ?thesis by simp
qed

lemma search_index_pair:
  assumes d: "distinct index"
    and ij: "i < j" "j < length index"
    and sc: "score_of query (index ! i) = score_of query (index ! j)"
    and r: "index ! j \<in> set (search_index query index)"
  shows "\<exists>a b. a < b \<and> b < length (search_index query index)
           \<and> search_index query index ! a = index ! i
           \<and> search_index query index ! b = index ! j"
proof -
  let ?P = "\<lambda>e. score_of query e = score_of query (index ! j)"
  let ?F = "filter ?P index" and ?R = "filter ?P (search_index query index)"
  have "subseq [index ! i, index ! j] index" using ij by (rule subseq_pair_nth)
  then have "subseq (filter ?P [index ! i, index ! j]) ?F" by (rule subseq_filter)
  then have f: "subseq [index ! i, index ! j] ?F" using sc by simp
  have "prefix ?R ?F" by (rule search_index_level)
  then obtain rest where F: "?F = ?R @ rest" by (auto simp: prefix_def)
  have "distinct ?F" using d by simp
  then have dR: "distinct (?R @ rest)" by (simp only: F)
  have jR: "index ! j \<in> set ?R" using r by simp
  have "subseq [index ! i, index ! j] (?R @ rest)" using f by (simp only: F)
  with dR jR have "subseq [index ! i, index ! j] ?R" by (rule subseq_pair_prefix)
  moreover have "subseq ?R (search_index query index)" by simp
  ultimately have "subseq [index ! i, index ! j] (search_index query index)"
    by (rule subseq_order.trans)
  then show ?thesis by (rule subseq_pair_positions)
qed

text \<open>
  C4: for every query and index, the returned entries of any one score are an initial
  segment of the index entries of that score, in index order. So, in an index without
  repeated entries, if two chunks receive the same score and the later one is
  returned, the earlier one is returned too, at an earlier position of the result.
\<close>

theorem search_index_stable:
  "prefix (filter (\<lambda>e. score_of query e = k) (search_index query index))
          (filter (\<lambda>e. score_of query e = k) index)
   \<and> (distinct index \<and> i < j \<and> j < length index
        \<and> score_of query (index ! i) = score_of query (index ! j)
        \<and> index ! j \<in> set (search_index query index)
      \<longrightarrow> (\<exists>a b. a < b \<and> b < length (search_index query index)
             \<and> search_index query index ! a = index ! i
             \<and> search_index query index ! b = index ! j))"
  using search_index_level[of query k index] search_index_pair[of index i j query]
  by blast

theorem search_index_stable_witness:
  "distinct [(''a.pdf'', ''Attendance rules''), (''b.pdf'', ''Attendance form'')]
   \<and> (0::nat) < 1
   \<and> 1 < length [(''a.pdf'', ''Attendance rules''), (''b.pdf'', ''Attendance form'')]
   \<and> score_of ''attendance''
        ([(''a.pdf'', ''Attendance rules''), (''b.pdf'', ''Attendance form'')] ! 0)
      = score_of ''attendance''
        ([(''a.pdf'', ''Attendance rules''), (''b.pdf'', ''Attendance form'')] ! 1)
   \<and> [(''a.pdf'', ''Attendance rules''), (''b.pdf'', ''Attendance form'')] ! 1
       \<in> set (search_index ''attendance''
                [(''a.pdf'', ''Attendance rules''), (''b.pdf'', ''Attendance form'')])
   \<and> (\<exists>a b. a < b
        \<and> b < length (search_index ''attendance''
                [(''a.pdf'', ''Attendance rules''), (''b.pdf'', ''Attendance form'')])
        \<and> search_index ''attendance''
                [(''a.pdf'', ''Attendance rules''), (''b.pdf'', ''Attendance form'')] ! a
            = [(''a.pdf'', ''Attendance rules''), (''b.pdf'', ''Attendance form'')] ! 0
        \<and> search_index ''attendance''
                [(''a.pdf'', ''Attendance rules''), (''b.pdf'', ''Attendance form'')] ! b
            = [(''a.pdf'', ''Attendance rules''), (''b.pdf'', ''Attendance form'')] ! 1)"
  (is "?d \<and> ?lt \<and> ?len \<and> ?sc \<and> ?mem \<and> ?concl")
proof -
  have h: "?d \<and> ?lt \<and> ?len \<and> ?sc \<and> ?mem" by code_simp
  have "?d \<and> ?lt \<and> ?len \<and> ?sc \<and> ?mem \<longrightarrow> ?concl"
    by (rule conjunct2[OF search_index_stable[where k = 1]])
  with h show ?thesis by blast
qed

text \<open>
  C8: for every query and index, the scores of the returned chunks are non-increasing:
  the score of the chunk at position \<open>j + 1\<close> is at most the score of the chunk at
  position \<open>j\<close>.
\<close>

theorem search_index_scores_descend:
  "Suc j < length (search_index query index) \<Longrightarrow>
     score_of query (search_index query index ! Suc j) \<le> score_of query (search_index query index ! j)"
  using search_index_descending[of query index]
  by (auto dest: sorted_wrt_nth_less[where i = j and j = "Suc j"])

theorem search_index_scores_descend_witness:
  "search_index ''library opening''
      [(''a.pdf'', ''Library hours''), (''b.pdf'', ''Library opening hours'')]
     = [(''b.pdf'', ''Library opening hours''), (''a.pdf'', ''Library hours'')]
   \<and> Suc 0 < length (search_index ''library opening''
        [(''a.pdf'', ''Library hours''), (''b.pdf'', ''Library opening hours'')])
   \<and> score_of ''library opening'' (search_index ''library opening''
        [(''a.pdf'', ''Library hours''), (''b.pdf'', ''Library opening hours'')] ! Suc 0)
     \<le> score_of ''library opening'' (search_index ''library opening''
        [(''a.pdf'', ''Library hours''), (''b.pdf'', ''Library opening hours'')] ! 0)"
  (is "?val \<and> ?len \<and> ?le")
proof -
  have v: "?val" by code_simp
  have l: "?len" by code_simp
  from v l search_index_scores_descend[OF l] show ?thesis by (intro conjI)
qed

text \<open>
  C10: for every query and index, every returned pair is an element of the index, and
  the lower-cased text of its chunk contains, as a substring, a word of the normalised
  query of length greater than 2.
\<close>

theorem search_index_sound:
  "e \<in> set (search_index query index) \<Longrightarrow>
     e \<in> set index
     \<and> (\<exists>w \<in> set (split (lower (strip query))).
           2 < length w \<and> (\<exists>ps ss. lower (snd e) = ps @ w @ ss))"
proof -
  assume "e \<in> set (search_index query index)"
  with search_index_subset[of query index] have i: "e \<in> set index" and p: "0 < score_of query e"
    by auto
  from p have "filter (\<lambda>w. str_in w (lower (snd e))) (query_words_of (lower (strip query))) \<noteq> []"
    by (simp add: score_of_def score_loop_count)
  then obtain w where "w \<in> set (query_words_of (lower (strip query)))" "str_in w (lower (snd e))"
    by (auto simp: filter_empty_conv)
  then have "w \<in> set (split (lower (strip query))) \<and> 2 < length w
             \<and> (\<exists>ps ss. lower (snd e) = ps @ w @ ss)"
    by (simp add: query_words_of_def str_in_iff)
  with i show ?thesis by blast
qed

theorem search_index_sound_witness:
  "(''b.pdf'', ''Library opening hours'') \<in> set (search_index ''library opening''
        [(''a.pdf'', ''Library hours''), (''b.pdf'', ''Library opening hours'')])
   \<and> (''b.pdf'', ''Library opening hours'')
        \<in> set [(''a.pdf'', ''Library hours''), (''b.pdf'', ''Library opening hours'')]
   \<and> (\<exists>w \<in> set (split (lower (strip ''library opening''))).
           2 < length w \<and> (\<exists>ps ss. lower (snd (''b.pdf'', ''Library opening hours'')) = ps @ w @ ss))"
  (is "?mem \<and> ?concl")
proof -
  have m: "?mem" by code_simp
  from m search_index_sound[OF m] show ?thesis by (rule conjI)
qed

text \<open>
  C7: for every index, \<open>search_index\<close> returns the empty list when the trimmed query is
  empty or when no word of the normalised query has length greater than 2; so it does
  for the empty query and for the query of two spaces. \<open>search_index\<close> has no
  \<open>raise\<close>: its result is a list in every case.
\<close>

theorem search_index_empty_query:
  "(strip query = [] \<or> (\<forall>w \<in> set (split (lower (strip query))). length w \<le> 2)
      \<longrightarrow> search_index query index = [])
   \<and> search_index [] index = []
   \<and> search_index ''  '' index = []"
proof (intro conjI impI)
  assume "strip query = [] \<or> (\<forall>w \<in> set (split (lower (strip query))). length w \<le> 2)"
  then have "lower (strip query) = [] \<or> query_words_of (lower (strip query)) = []"
    by (auto simp: lower_def query_words_of_def filter_empty_conv not_less)
  then show "search_index query index = []" by (rule search_index_empty)
next
  show "search_index [] index = []"
    by (simp add: search_index_def strip_def lower_def)
next
  show "search_index ''  '' index = []"
    by (simp add: search_index_def strip_def lower_def is_space_def)
qed

theorem search_index_empty_query_witness:
  "split (lower (strip ''Is it ok'')) = [''is'', ''it'', ''ok'']
   \<and> search_index ''Is it ok'' [(''a.pdf'', ''Is it ok'')] = []"
  (is "?v \<and> ?c")
proof -
  have v: "?v" by code_simp
  have "\<forall>w \<in> set (split (lower (strip ''Is it ok''))). length w \<le> 2"
    unfolding v by simp
  then have "strip ''Is it ok'' = []
      \<or> (\<forall>w \<in> set (split (lower (strip ''Is it ok''))). length w \<le> 2)"
    by (rule disjI2)
  with conjunct1[OF search_index_empty_query[of "''Is it ok''" "[(''a.pdf'', ''Is it ok'')]"]]
  have "?c" by (rule mp)
  with v show ?thesis by (rule conjI)
qed


section \<open>Properties of answer generation\<close>





lemma call_ollama_llm_requests:
  "\<exists>payload. requests (snd (call_ollama_llm requests_post question context s))
               = requests s @ [(OLLAMA_URL, payload, 120)]"
  by (auto simp: call_ollama_llm_def Let_def split: sum.splits)




text \<open>
  C6: when \<open>search_index\<close> returns no match, \<open>generate_answer\<close> returns the fixed
  message and leaves the session as it was, so no request is sent to the backend; when
  there is a match, the log of requests grows by exactly one request, whether the call
  succeeds or fails.
\<close>

theorem backend_attempts:
  "(search_index query index = [] \<longrightarrow>
      generate_answer textwrap_fill requests_post query index use_llm s =
        (''I could not find a matching answer to your question in the PDFs. '' @
         ''Try using different words that might appear in the documents.'', s))
   \<and> (search_index query index \<noteq> [] \<longrightarrow>
      (\<exists>payload. requests (snd (generate_answer textwrap_fill requests_post query index use_llm s))
                  = requests s @ [(OLLAMA_URL, payload, 120)]))"
proof (intro conjI impI)
  assume "search_index query index = []"
  then show "generate_answer textwrap_fill requests_post query index use_llm s =
        (''I could not find a matching answer to your question in the PDFs. '' @
         ''Try using different words that might appear in the documents.'', s)"
    by (simp add: generate_answer_def)
next
  assume ne: "search_index query index \<noteq> []"
  let ?ctx = "join (NL @ NL @ ''-----'' @ NL @ NL) (context_loop (search_index query index) [])"
  obtain r s' where c: "call_ollama_llm requests_post query ?ctx s = (r, s')"
    by (cases "call_ollama_llm requests_post query ?ctx s")
  from call_ollama_llm_requests[of requests_post query ?ctx s] c
  obtain payload where p: "requests s' = requests s @ [(OLLAMA_URL, payload, 120)]" by auto
  have "requests (snd (generate_answer textwrap_fill requests_post query index use_llm s))
          = requests s'"
    using ne c by (cases r) (simp_all add: generate_answer_def Let_def)
  with p show "\<exists>payload. requests (snd (generate_answer textwrap_fill requests_post query index use_llm s))
                  = requests s @ [(OLLAMA_URL, payload, 120)]" by auto
qed

theorem backend_attempts_witness:
  "search_index ''timetable'' [(''Policy.pdf'', ''The attendance policy'')] = []
   \<and> generate_answer (\<lambda>text width. text) (\<lambda>url payload timeout. Inl ConnectionError)
        ''timetable'' [(''Policy.pdf'', ''The attendance policy'')] True
        \<lparr>requests = [], warnings = []\<rparr> =
        (''I could not find a matching answer to your question in the PDFs. '' @
         ''Try using different words that might appear in the documents.'',
         \<lparr>requests = [], warnings = []\<rparr>)
   \<and> search_index ''attendance policy'' [(''Policy.pdf'', ''The attendance policy'')] \<noteq> []
   \<and> (\<exists>payload. requests (snd (generate_answer (\<lambda>text width. text)
          (\<lambda>url payload timeout. Inl ConnectionError)
          ''attendance policy'' [(''Policy.pdf'', ''The attendance policy'')] True
          \<lparr>requests = [], warnings = []\<rparr>))
        = requests \<lparr>requests = [], warnings = []\<rparr> @ [(OLLAMA_URL, payload, 120)])"
  (is "?h1 \<and> ?c1 \<and> ?h2 \<and> ?c2")
proof -
  have h1: "?h1" by code_simp
  have h2: "?h2" by code_simp
  have c1: "?c1" by (rule mp[OF conjunct1[OF backend_attempts] h1])
  have c2: "?c2" by (rule mp[OF conjunct2[OF backend_attempts] h2])
  show ?thesis by (rule conjI[OF h1 conjI[OF c1 conjI[OF h2 c2]]])
qed

end
